theory Spec2Isabelle
  imports Main "HOL-Library.Word" "HOL-Library.While_Combinator"
begin

unbundle bit_operations_syntax

section \<open>Bytes, words and byte order\<close>

text \<open>
  The program \<^verbatim>\<open>utility.c\<close> works on raw byte buffers that it overlays with the
  C structs of the Ethernet, IPv4 and ICMP headers. A buffer is a list of bytes; a
  pointer into a buffer is the list of the bytes from that address on. The byte order of
  the machine is not fixed by the source, so every function that reads or writes a 16-bit
  object through a pointer takes the byte order as a parameter.
\<close>

type_synonym u8 = "8 word"
type_synonym u16 = "16 word"
type_synonym u32 = "32 word"

datatype endian = LittleEndian | BigEndian

text \<open>The most and the least significant byte of a 16-bit value.\<close>

definition hi8 :: "u16 \<Rightarrow> u8" where
  "hi8 v = ucast (drop_bit 8 v)"

definition lo8 :: "u16 \<Rightarrow> u8" where
  "lo8 v = ucast v"

text \<open>The 16-bit value whose most significant byte is \<open>h\<close> and whose least is \<open>l\<close>.\<close>

definition be16 :: "u8 \<Rightarrow> u8 \<Rightarrow> u16" where
  "be16 h l = push_bit 8 (ucast h) OR ucast l"

text \<open>
  \<^verbatim>\<open>*(const uint16_t *)p\<close> where \<open>b0\<close> is the byte at \<open>p\<close> and \<open>b1\<close> the byte at
  \<open>p + 1\<close>: the 16-bit word in the machine's natural byte order.
\<close>

definition load16 :: "endian \<Rightarrow> u8 \<Rightarrow> u8 \<Rightarrow> u16" where
  "load16 e b0 b1 = (case e of LittleEndian \<Rightarrow> be16 b1 b0 | BigEndian \<Rightarrow> be16 b0 b1)"

text \<open>The two bytes that a store of a 16-bit value leaves in memory, lowest address first.\<close>

definition store16 :: "endian \<Rightarrow> u16 \<Rightarrow> u8 list" where
  "store16 e v = (case e of LittleEndian \<Rightarrow> [lo8 v, hi8 v] | BigEndian \<Rightarrow> [hi8 v, lo8 v])"

text \<open>\<^verbatim>\<open>htons\<close> and \<^verbatim>\<open>ntohs\<close>: a byte swap on a little-endian machine, the identity otherwise.\<close>

definition htons :: "endian \<Rightarrow> u16 \<Rightarrow> u16" where
  "htons e v = (case e of LittleEndian \<Rightarrow> be16 (lo8 v) (hi8 v) | BigEndian \<Rightarrow> v)"

definition ntohs :: "endian \<Rightarrow> u16 \<Rightarrow> u16" where
  "ntohs e v = (case e of LittleEndian \<Rightarrow> be16 (lo8 v) (hi8 v) | BigEndian \<Rightarrow> v)"

text \<open>The byte swap itself, to state how the two byte orders relate.\<close>

definition swap16 :: "u16 \<Rightarrow> u16" where
  "swap16 w = be16 (lo8 w) (hi8 w)"

section \<open>The checksum \<^verbatim>\<open>csum16\<close>\<close>

text \<open>
  \<^verbatim>\<open>
  static uint16_t csum16(const void *data, size_t len)
  {
      const uint16_t *w = data;
      uint32_t sum = 0;
      while (len > 1) { sum += *w++; len -= 2; }
      if (len) sum += *(const uint8_t *)w;
      while (sum >> 16) sum = (sum & 0xFFFF) + (sum >> 16);
      return (uint16_t)~sum;
  }
  \<close>
  The first loop: \<open>w\<close> is the pointer (the bytes from it on), \<open>len\<close> the remaining
  length, \<open>acc\<close> the 32-bit accumulator \<^verbatim>\<open>sum\<close>, whose addition wraps. A read past the end of
  the buffer is undefined behaviour in C and is \<open>None\<close> here. The loop hands the
  pointer, the remaining length and the accumulator to the code after it.
\<close>

fun sum_words :: "endian \<Rightarrow> u8 list \<Rightarrow> nat \<Rightarrow> u32 \<Rightarrow> (u8 list \<times> nat \<times> u32) option" where
  "sum_words e w len acc =
     (if len > 1 then
        (case w of
           b0 # b1 # w' \<Rightarrow> sum_words e w' (len - 2) (acc + ucast (load16 e b0 b1))
         | _ \<Rightarrow> None)
      else Some (w, len, acc))"

declare sum_words.simps [simp del]

text \<open>The second loop folds the carries; it ends because the accumulator gets smaller.\<close>

function fold_carries :: "u32 \<Rightarrow> u32" where
  "fold_carries acc =
     (if drop_bit 16 acc \<noteq> 0 then fold_carries ((acc AND 0xFFFF) + drop_bit 16 acc)
      else acc)"
  by pat_completeness auto

lemma unat_low16: "unat ((s :: u32) AND 0xFFFF) = unat s mod 65536"
proof -
  have "(0xFFFF :: u32) = mask 16" by (simp add: mask_eq_exp_minus_1)
  then have "s AND 0xFFFF = take_bit 16 s" by (simp only: take_bit_eq_mask)
  then show ?thesis by (simp only: unsigned_take_bit_eq) (simp add: take_bit_eq_mod)
qed

lemma unat_high16: "unat (drop_bit 16 (s :: u32)) = unat s div 65536"
  by (simp only: unat_drop_bit_eq) (simp add: drop_bit_eq_div)

lemma unat_fold_step:
  "unat (((s :: u32) AND 0xFFFF) + drop_bit 16 s) = unat s mod 65536 + unat s div 65536"
proof -
  have "unat s < 2 ^ 32" using unsigned_less [of s] by simp
  then have "unat s mod 65536 + unat s div 65536 < 2 ^ 32" by simp
  then show ?thesis
    by (simp add: unat_word_ariths unat_low16 unat_high16)
qed

lemma fold_step_less:
  assumes "drop_bit 16 (s :: u32) \<noteq> 0"
  shows "unat ((s AND 0xFFFF) + drop_bit 16 s) < unat s"
proof -
  have "unat (drop_bit 16 s) \<noteq> 0" using assms by (simp add: unat_eq_0)
  then have "0 < unat s div 65536" by (simp add: unat_high16)
  moreover have "unat s = 65536 * (unat s div 65536) + unat s mod 65536" by simp
  ultimately have "unat s mod 65536 + unat s div 65536 < unat s" by linarith
  then show ?thesis by (simp only: unat_fold_step)
qed

termination fold_carries
proof (relation "measure unat")
  show "wf (measure unat)" by simp
next
  fix acc :: u32
  assume "drop_bit 16 acc \<noteq> 0"
  then have "unat ((acc AND 0xFFFF) + drop_bit 16 acc) < unat acc"
    by (rule fold_step_less)
  then show "((acc AND 0xFFFF) + drop_bit 16 acc, acc) \<in> measure unat"
    by (simp only: in_measure)
qed

declare fold_carries.simps [simp del]

text \<open>
  The whole function. The pointer handed over by the first loop is read once more when one
  byte is left; the result is the low half of the complemented accumulator.
\<close>

definition csum16 :: "endian \<Rightarrow> u8 list \<Rightarrow> nat \<Rightarrow> u16 option" where
  "csum16 e data len =
     (case sum_words e data len 0 of
        None \<Rightarrow> None
      | Some (w, len', acc) \<Rightarrow>
          (if len' \<noteq> 0 then
             (case w of
                [] \<Rightarrow> None
              | b # _ \<Rightarrow> Some (ucast (NOT (fold_carries (acc + ucast b)))))
           else Some (ucast (NOT (fold_carries acc)))))"

subsection \<open>The checksum as the specification words it\<close>

text \<open>
  The specification's \<^verbatim>\<open>checksum16\<close>: the complete 16-bit words of the data in their
  natural byte order are summed into a 32-bit accumulator; when the length is odd the
  trailing byte is added as the low-order byte of one more word; the high 16 bits are
  added into the low 16 bits until no carry remains; the result is the complement of the
  low 16 bits.
\<close>

fun complete_words :: "endian \<Rightarrow> u8 list \<Rightarrow> u16 list" where
  "complete_words e (b0 # b1 # rest) = load16 e b0 b1 # complete_words e rest"
| "complete_words e _ = []"

definition fold_until_no_carry :: "u32 \<Rightarrow> u32" where
  "fold_until_no_carry =
     while (\<lambda>a. drop_bit 16 a \<noteq> 0) (\<lambda>a. drop_bit 16 a + (a AND 0xFFFF))"

definition checksum16_spec :: "endian \<Rightarrow> u8 list \<Rightarrow> u16" where
  "checksum16_spec e data =
     (let words = (\<Sum>x\<leftarrow>complete_words e data. ucast x) :: u32;
          total = (if odd (length data) then words + ucast (last data) else words)
      in NOT (ucast (fold_until_no_carry total)))"


section \<open>The echo-request builder \<^verbatim>\<open>build_icmp_echo\<close>\<close>

text \<open>
  Constants of the system headers the program includes: \<^verbatim>\<open>ICMP_ECHO\<close>,
  \<^verbatim>\<open>ICMP_ECHOREPLY\<close>, \<^verbatim>\<open>IPPROTO_ICMP\<close>, \<^verbatim>\<open>ETH_P_IP\<close>, \<^verbatim>\<open>ETH_ALEN\<close> and the sizes of
  \<^verbatim>\<open>struct ether_header\<close>, \<^verbatim>\<open>struct iphdr\<close> and \<^verbatim>\<open>struct icmphdr\<close>.
\<close>

definition ICMP_ECHO :: u8 where "ICMP_ECHO = 8"
definition ICMP_ECHOREPLY :: u8 where "ICMP_ECHOREPLY = 0"
definition IPPROTO_ICMP :: u8 where "IPPROTO_ICMP = 1"
definition ETH_P_IP :: u16 where "ETH_P_IP = 0x0800"
definition ETH_ALEN :: nat where "ETH_ALEN = 6"
definition sizeof_ether_header :: nat where "sizeof_ether_header = 14"
definition sizeof_iphdr :: nat where "sizeof_iphdr = 20"
definition sizeof_icmphdr :: nat where "sizeof_icmphdr = 8"

text \<open>
  A store of the bytes \<open>bs\<close> at offset \<open>off\<close> of a buffer (an assignment to a struct
  field, \<^verbatim>\<open>memset\<close>, \<^verbatim>\<open>memcpy\<close>, the copy that \<^verbatim>\<open>recv\<close> makes). The callers below
  check that the store stays inside the buffer.
\<close>

definition write_bytes :: "u8 list \<Rightarrow> nat \<Rightarrow> u8 list \<Rightarrow> u8 list" where
  "write_bytes buf off bs = take off buf @ bs @ drop (off + length bs) buf"

text \<open>An access outside an object is undefined behaviour; the model stops with a fault.\<close>

datatype fault = OutOfBounds

text \<open>
  \<^verbatim>\<open>
  static ssize_t build_icmp_echo(uint8_t *buf, uint16_t id, uint16_t seq)
  {
      const size_t pkt_len = 64;
      if (!buf) return -1;
      struct icmphdr *icmp = (struct icmphdr *)buf;
      icmp->type     = ICMP_ECHO;
      icmp->code     = 0;
      icmp->checksum = 0;
      icmp->un.echo.id       = htons(id);
      icmp->un.echo.sequence = htons(seq);
      size_t data_len = pkt_len - sizeof(struct icmphdr);
      memset(buf + sizeof(struct icmphdr), 0, data_len);
      time_t now = time(NULL);
      memcpy(buf + sizeof(struct icmphdr), &now,
             (data_len < sizeof(now)) ? data_len : sizeof(now));
      icmp->checksum = csum16(buf, pkt_len);
      return pkt_len;
  }
  \<close>
  The buffer argument is \<open>None\<close> for the null pointer and otherwise the bytes of the
  caller's array. \<open>now\<close> is the object representation of the value that \<^verbatim>\<open>time\<close>
  returns, so \<^verbatim>\<open>sizeof(now)\<close> is its length. The result is the returned length and the
  buffer as the function leaves it. The fields of \<^verbatim>\<open>struct icmphdr\<close> lie at the offsets
  0 (type), 1 (code), 2 (checksum), 4 (id) and 6 (sequence).
\<close>

definition build_icmp_echo ::
  "endian \<Rightarrow> u8 list \<Rightarrow> u8 list option \<Rightarrow> u16 \<Rightarrow> u16 \<Rightarrow> fault + (int \<times> u8 list option)" where
  "build_icmp_echo e now buf ident seq =
     (let pkt_len = 64 in
      case buf of
        None \<Rightarrow> Inr (- 1, None)
      | Some b0 \<Rightarrow>
          if length b0 < pkt_len then Inl OutOfBounds
          else
            let b1 = write_bytes b0 0 [ICMP_ECHO];
                b2 = write_bytes b1 1 [0];
                b3 = write_bytes b2 2 (store16 e 0);
                b4 = write_bytes b3 4 (store16 e (htons e ident));
                b5 = write_bytes b4 6 (store16 e (htons e seq));
                data_len = pkt_len - sizeof_icmphdr;
                b6 = write_bytes b5 sizeof_icmphdr (replicate data_len 0);
                b7 = write_bytes b6 sizeof_icmphdr
                       (take (if data_len < length now then data_len else length now) now)
            in case csum16 e b7 pkt_len of
                 None \<Rightarrow> Inl OutOfBounds
               | Some c \<Rightarrow> Inr (int pkt_len, Some (write_bytes b7 2 (store16 e c))))"

text \<open>
  The contents of the buffer when \<^verbatim>\<open>csum16\<close> is called, written out: the header with a
  zero checksum, the timestamp padded with zeros to 56 bytes, and the rest of the caller's
  array. That the stores above leave exactly this is \<open>build_icmp_echo_unfold\<close> below.
\<close>

definition echo_unsummed :: "u8 list \<Rightarrow> u8 list \<Rightarrow> u16 \<Rightarrow> u16 \<Rightarrow> u8 list" where
  "echo_unsummed now b ident seq =
     [8, 0, 0, 0, hi8 ident, lo8 ident, hi8 seq, lo8 seq] @
     take 56 (now @ replicate 56 0) @ drop 64 b"

section \<open>The wait loop \<^verbatim>\<open>wait_reply\<close>\<close>

text \<open>
  What the kernel does is the input of the loop: one event for each iteration, made of
  the value that \<^verbatim>\<open>poll\<close> returns and of what \<^verbatim>\<open>recv\<close> delivers when it is called then.
  \<^verbatim>\<open>recv\<close> copies at most \<^verbatim>\<open>sizeof(buf)\<close> bytes of the frame to the start of the buffer
  and returns their number, or returns \<open>-1\<close> and leaves the buffer alone.
\<close>

datatype recv_result = RecvError | RecvFrame "u8 list"

type_synonym event = "int \<times> recv_result"

definition recv :: "u8 list \<Rightarrow> recv_result \<Rightarrow> int \<times> u8 list" where
  "recv buf r =
     (case r of
        RecvError \<Rightarrow> (- 1, buf)
      | RecvFrame f \<Rightarrow>
          (let n = min (length f) (length buf) in (int n, write_bytes buf 0 (take n f))))"

text \<open>
  The body of the loop after \<^verbatim>\<open>recv\<close>: the chain of checks, each of which ends the
  iteration with \<^verbatim>\<open>continue\<close> (here \<open>False\<close>); \<open>True\<close> is reaching the \<^verbatim>\<open>memcpy\<close>.
  \<^verbatim>\<open>
      if (n < (ssize_t)(sizeof(struct ether_header) + sizeof(struct iphdr) +
                        sizeof(struct icmphdr))) continue;
      struct ether_header *eth = (struct ether_header *)buf;
      if (ntohs(eth->ether_type) != ETH_P_IP) continue;
      struct iphdr *ip = (struct iphdr *)(buf + sizeof(struct ether_header));
      size_t ip_hl = ip->ihl * 4;
      if (ip_hl < 20) continue;
      if (ip->protocol != IPPROTO_ICMP) continue;
      struct icmphdr *icmp = (struct icmphdr *)(buf + sizeof(struct ether_header) + ip_hl);
      if (icmp->type != ICMP_ECHOREPLY || icmp->code != 0) continue;
      if (icmp->un.echo.id       != htons(id))  continue;
      if (icmp->un.echo.sequence != htons(seq)) continue;
  \<close>
  \<^verbatim>\<open>ether_type\<close> is at offset 12 of the frame, the byte holding \<^verbatim>\<open>ihl\<close> in its low four
  bits at offset 14, \<^verbatim>\<open>protocol\<close> at offset 23.
\<close>

definition frame_accepted :: "endian \<Rightarrow> u8 list \<Rightarrow> int \<Rightarrow> u16 \<Rightarrow> u16 \<Rightarrow> bool" where
  "frame_accepted e buf n ident seq =
     (if n < int (sizeof_ether_header + sizeof_iphdr + sizeof_icmphdr) then False
      else if ntohs e (load16 e (buf ! 12) (buf ! 13)) \<noteq> ETH_P_IP then False
      else
        let ip_hl = unat (buf ! sizeof_ether_header AND 0x0F) * 4 in
        if ip_hl < 20 then False
        else if buf ! (sizeof_ether_header + 9) \<noteq> IPPROTO_ICMP then False
        else
          let icmp = sizeof_ether_header + ip_hl in
          if buf ! icmp \<noteq> ICMP_ECHOREPLY \<or> buf ! (icmp + 1) \<noteq> 0 then False
          else if load16 e (buf ! (icmp + 4)) (buf ! (icmp + 5)) \<noteq> htons e ident then False
          else if load16 e (buf ! (icmp + 6)) (buf ! (icmp + 7)) \<noteq> htons e seq then False
          else True)"

text \<open>
  \<^verbatim>\<open>
  static int wait_reply(int psock, uint16_t id, uint16_t seq,
                        int tout_ms, uint8_t mac_out[ETH_ALEN])
  {
      uint8_t buf[2048];
      struct pollfd pfd = { .fd = psock, .events = POLLIN };
      while (poll(&pfd, 1, tout_ms) > 0) {
          ssize_t n = recv(psock, buf, sizeof(buf), 0);
          ... the checks above ...
          memcpy(mac_out, eth->ether_shost, ETH_ALEN);
          return 0;
      }
      return -1;
  }
  \<close>
  The loop runs over the events. \<open>buf\<close> is the local array, which keeps its contents
  from one iteration to the next and starts with whatever the stack holds; \<open>mac_out\<close> is
  the caller's array. The result is the returned value and the caller's array; \<open>None\<close>
  means that the events ran out while the loop was still waiting. The socket and the
  timeout only reach \<^verbatim>\<open>poll\<close> and \<^verbatim>\<open>recv\<close>, whose outcomes are the events.
\<close>

fun wait_reply ::
  "endian \<Rightarrow> event list \<Rightarrow> u8 list \<Rightarrow> u16 \<Rightarrow> u16 \<Rightarrow> u8 list \<Rightarrow> (int \<times> u8 list) option" where
  "wait_reply e [] buf ident seq mac_out = None"
| "wait_reply e ((p, r) # evs) buf ident seq mac_out =
     (if p > 0 then
        (case recv buf r of
           (n, buf') \<Rightarrow>
             if frame_accepted e buf' n ident seq
             then Some (0, write_bytes mac_out 0 (take ETH_ALEN (drop 6 buf')))
             else wait_reply e evs buf' ident seq mac_out)
      else Some (- 1, mac_out))"

declare wait_reply.simps(2) [simp del]

section \<open>Output: \<^verbatim>\<open>print_mac\<close> and the end of \<^verbatim>\<open>main\<close>\<close>

text \<open>
  \<^verbatim>\<open>printf("%02x:%02x:%02x:%02x:%02x:%02x\n", m[0], m[1], m[2], m[3], m[4], m[5])\<close>:
  the text written to the standard output.
\<close>

definition hex_digit :: "nat \<Rightarrow> char" where
  "hex_digit d = ''0123456789abcdef'' ! (d mod 16)"

definition hex02 :: "u8 \<Rightarrow> string" where
  "hex02 b = [hex_digit (unat b div 16), hex_digit (unat b mod 16)]"

definition print_mac :: "u8 list \<Rightarrow> string" where
  "print_mac m =
     hex02 (m ! 0) @ '':'' @ hex02 (m ! 1) @ '':'' @ hex02 (m ! 2) @ '':'' @
     hex02 (m ! 3) @ '':'' @ hex02 (m ! 4) @ '':'' @ hex02 (m ! 5) @ [CHR 0x0A]"

text \<open>
  The end of \<^verbatim>\<open>main\<close>, from the call of \<^verbatim>\<open>wait_reply\<close> on: what is printed, on which
  stream, and the exit status.
  \<^verbatim>\<open>
      if (wait_reply(s_pkt, pid16, 1, 3000, mac) == 0) {
          print_mac(mac); ... return EXIT_SUCCESS;
      } else {
          fprintf(stderr, "Timeout waiting for Echo Reply\n"); ... return EXIT_FAILURE;
      }
  \<close>
\<close>

datatype printed = Stdout string | Stderr string

definition main_report :: "int \<times> u8 list \<Rightarrow> printed \<times> int" where
  "main_report res =
     (case res of
        (ret, mac) \<Rightarrow>
          if ret = 0 then (Stdout (print_mac mac), 0)
          else (Stderr (''Timeout waiting for Echo Reply'' @ [CHR 0x0A]), 1))"

definition main_wait :: "endian \<Rightarrow> event list \<Rightarrow> u8 list \<Rightarrow> u16 \<Rightarrow> u8 list \<Rightarrow> (printed \<times> int) option" where
  "main_wait e evs buf pid16 mac = map_option main_report (wait_reply e evs buf pid16 1 mac)"

section \<open>The fields of a captured frame\<close>

text \<open>
  The fields of an Ethernet frame that carries IPv4 and ICMP, as they are on the wire
  (16-bit fields in network byte order). The ICMP header follows the IPv4 header, whose
  length is four times its header-length field.
\<close>

definition eth_type :: "u8 list \<Rightarrow> u16" where
  "eth_type f = be16 (f ! 12) (f ! 13)"

definition eth_shost :: "u8 list \<Rightarrow> u8 list" where
  "eth_shost f = take 6 (drop 6 f)"

definition ip_hdr_len :: "u8 list \<Rightarrow> nat" where
  "ip_hdr_len f = 4 * unat (f ! 14 AND 0x0F)"

definition ip_protocol :: "u8 list \<Rightarrow> u8" where
  "ip_protocol f = f ! 23"

definition icmp_offset :: "u8 list \<Rightarrow> nat" where
  "icmp_offset f = 14 + ip_hdr_len f"

definition icmp_type :: "u8 list \<Rightarrow> u8" where
  "icmp_type f = f ! icmp_offset f"

definition icmp_code :: "u8 list \<Rightarrow> u8" where
  "icmp_code f = f ! (icmp_offset f + 1)"

definition icmp_checksum :: "u8 list \<Rightarrow> u16" where
  "icmp_checksum f = be16 (f ! (icmp_offset f + 2)) (f ! (icmp_offset f + 3))"

definition icmp_id :: "u8 list \<Rightarrow> u16" where
  "icmp_id f = be16 (f ! (icmp_offset f + 4)) (f ! (icmp_offset f + 5))"

definition icmp_seq :: "u8 list \<Rightarrow> u16" where
  "icmp_seq f = be16 (f ! (icmp_offset f + 6)) (f ! (icmp_offset f + 7))"

text \<open>The frame holds the three headers at their offsets.\<close>

definition has_icmp_header :: "u8 list \<Rightarrow> bool" where
  "has_icmp_header f \<longleftrightarrow> icmp_offset f + 8 \<le> length f"

text \<open>
  The filter as the specification lists it, on the frame alone. A frame is rejected when it
  is shorter than 42 bytes, when its Ethernet type is not IPv4, when its IPv4 header length
  is less than 20, when its protocol is not ICMP, and unless its ICMP header, which follows
  the IPv4 header, has the type Echo Reply, the code 0, the expected identifier and the
  expected sequence number. A frame that ends before its ICMP header has no such fields.
\<close>

definition passes_filter :: "u8 list \<Rightarrow> u16 \<Rightarrow> u16 \<Rightarrow> bool" where
  "passes_filter f ident seq \<longleftrightarrow>
     \<not> length f < 42 \<and> eth_type f = ETH_P_IP \<and> \<not> ip_hdr_len f < 20 \<and>
     ip_protocol f = IPPROTO_ICMP \<and> has_icmp_header f \<and>
     icmp_type f = ICMP_ECHOREPLY \<and> icmp_code f = 0 \<and> icmp_id f = ident \<and> icmp_seq f = seq"

section \<open>Example frames\<close>

text \<open>
  Frames used as concrete inputs below. \<open>reply_frame\<close> is an Echo Reply from
  \<^verbatim>\<open>aa:bb:cc:dd:ee:ff\<close> with the identifier 1234 and the sequence number 1;
  \<open>seq2_frame\<close> is the same with the sequence number 2; \<open>bad_checksum_frame\<close> is
  \<open>reply_frame\<close> with a wrong ICMP checksum; \<open>short_frame\<close> has 42 bytes and the
  header-length field 15; \<open>stale_frame\<close> is an 82-byte frame that is not IPv4;
  \<open>other_reply_frame\<close> is a 98-byte Echo Reply to another sender, with the identifier 999,
  whose payload holds the bytes \<open>00 00 00 00 04 d2 00 01\<close> at the offsets 74 to 81 of the
  frame; \<open>truncated_frame\<close> has 42 bytes, the header-length field 15 and the source
  address \<^verbatim>\<open>66:55:44:33:22:11\<close>.
\<close>

abbreviation (input) reply_frame :: "u8 list" where
  "reply_frame \<equiv>
     [0x02, 0, 0, 0, 0, 0x01, 0xAA, 0xBB, 0xCC, 0xDD, 0xEE, 0xFF, 0x08, 0x00,
      0x45, 0, 0, 0x1C, 0, 0, 0, 0, 0x40, 0x01, 0, 0, 192, 168, 1, 1, 192, 168, 1, 2,
      0, 0, 0xFB, 0x2C, 0x04, 0xD2, 0, 1]"

abbreviation (input) seq2_frame :: "u8 list" where
  "seq2_frame \<equiv>
     [0x02, 0, 0, 0, 0, 0x01, 0xAA, 0xBB, 0xCC, 0xDD, 0xEE, 0xFF, 0x08, 0x00,
      0x45, 0, 0, 0x1C, 0, 0, 0, 0, 0x40, 0x01, 0, 0, 192, 168, 1, 1, 192, 168, 1, 2,
      0, 0, 0xFB, 0x2B, 0x04, 0xD2, 0, 2]"

abbreviation (input) stale_frame :: "u8 list" where
  "stale_frame \<equiv>
     [0x02, 0, 0, 0, 0, 0x01, 0x02, 0, 0, 0, 0, 0x09, 0x86, 0xDD] @ replicate 60 0 @
     [0, 0, 0, 0, 0x04, 0xD2, 0, 1]"

abbreviation (input) short_frame :: "u8 list" where
  "short_frame \<equiv>
     [0x02, 0, 0, 0, 0, 0x01, 0x11, 0x22, 0x33, 0x44, 0x55, 0x66, 0x08, 0x00,
      0x4F, 0, 0, 0x1C, 0, 0, 0, 0, 0x40, 0x01, 0, 0, 192, 168, 1, 1, 192, 168, 1, 2,
      0, 0, 0, 0, 0, 0, 0, 0]"

abbreviation (input) bad_checksum_frame :: "u8 list" where
  "bad_checksum_frame \<equiv>
     [0x02, 0, 0, 0, 0, 0x01, 0xAA, 0xBB, 0xCC, 0xDD, 0xEE, 0xFF, 0x08, 0x00,
      0x45, 0, 0, 0x1C, 0, 0, 0, 0, 0x40, 0x01, 0, 0, 192, 168, 1, 1, 192, 168, 1, 2,
      0, 0, 0xDE, 0xAD, 0x04, 0xD2, 0, 1]"

abbreviation (input) other_reply_frame :: "u8 list" where
  "other_reply_frame \<equiv>
     [0x02, 0, 0, 0, 0, 0x01, 0x02, 0, 0, 0, 0, 0x09, 0x08, 0x00,
      0x45, 0, 0, 0x54, 0, 0, 0, 0, 0x40, 0x01, 0, 0, 192, 168, 1, 9, 192, 168, 1, 1,
      0, 0, 0xF7, 0x44, 0x03, 0xE7, 0, 1] @ replicate 32 0 @
     [0, 0, 0, 0, 0x04, 0xD2, 0, 1] @ replicate 16 0"

abbreviation (input) truncated_frame :: "u8 list" where
  "truncated_frame \<equiv>
     [0x02, 0, 0, 0, 0, 0x01, 0x66, 0x55, 0x44, 0x33, 0x22, 0x11, 0x08, 0x00,
      0x4F, 0, 0, 0x1C, 0, 0, 0, 0, 0x40, 0x01, 0, 0, 192, 168, 1, 7, 192, 168, 1, 1,
      0, 0, 0, 0, 0, 0, 0, 0]"

section \<open>Byte order\<close>

text \<open>
  A 16-bit value is made of its two bytes, and the loads and stores of the machine agree
  with \<^verbatim>\<open>htons\<close> and \<^verbatim>\<open>ntohs\<close> on both byte orders.
\<close>

lemma hi8_be16: "hi8 (be16 h l) = h"
  unfolding hi8_def be16_def
  by (rule bit_word_eqI) (auto simp add: bit_simps dest: bit_imp_le_length)

lemma lo8_be16: "lo8 (be16 h l) = l"
  unfolding lo8_def be16_def
  by (rule bit_word_eqI) (auto simp add: bit_simps)

lemma be16_hi_lo: "be16 (hi8 v) (lo8 v) = v"
  unfolding hi8_def lo8_def be16_def
  by (rule bit_word_eqI) (auto simp add: bit_simps)

lemma be16_eq_iff: "be16 h l = v \<longleftrightarrow> h = hi8 v \<and> l = lo8 v"
  by (auto simp: hi8_be16 lo8_be16 be16_hi_lo)

lemma load16_store16: "store16 e v = [b0, b1] \<Longrightarrow> load16 e b0 b1 = v"
  by (cases e) (auto simp: store16_def load16_def be16_hi_lo)

lemma store16_htons: "store16 e (htons e v) = [hi8 v, lo8 v]"
  by (cases e) (simp_all add: store16_def htons_def hi8_be16 lo8_be16)

lemma load16_eq_htons: "load16 e b0 b1 = htons e v \<longleftrightarrow> be16 b0 b1 = v"
  by (cases e) (auto simp: load16_def htons_def be16_eq_iff hi8_be16 lo8_be16)

lemma ntohs_load16: "ntohs e (load16 e b0 b1) = be16 b0 b1"
  by (cases e) (simp_all add: load16_def ntohs_def hi8_be16 lo8_be16)

section \<open>The checksum agrees with its specification\<close>

lemma ucast_NOT_down: "(ucast (NOT (x :: u32)) :: u16) = NOT (ucast x)"
  by (rule bit_word_eqI) (auto simp add: bit_simps)

lemma fold_carries_spec: "fold_carries s = fold_until_no_carry s"
proof (induction s rule: fold_carries.induct)
  case (1 acc)
  show ?case
  proof (cases "drop_bit 16 acc \<noteq> 0")
    case True
    then have "fold_carries acc = fold_carries ((acc AND 0xFFFF) + drop_bit 16 acc)"
      by (subst fold_carries.simps) simp
    also have "\<dots> = fold_until_no_carry ((acc AND 0xFFFF) + drop_bit 16 acc)"
      using 1 True by simp
    also have "\<dots> = fold_until_no_carry acc"
      unfolding fold_until_no_carry_def
      by (subst (2) while_unfold) (simp add: True add.commute)
    finally show ?thesis .
  next
    case False
    then have "fold_carries acc = acc" by (subst fold_carries.simps) simp
    moreover have "fold_until_no_carry acc = acc"
      unfolding fold_until_no_carry_def using False by (subst while_unfold) simp
    ultimately show ?thesis by simp
  qed
qed

lemma sum_words_spec:
  "len \<le> length w \<Longrightarrow>
   \<exists>w'. sum_words e w len acc =
         Some (w', len mod 2, acc + (\<Sum>x\<leftarrow>complete_words e (take len w). ucast x)) \<and>
        (odd len \<longrightarrow> w' \<noteq> [] \<and> hd w' = last (take len w))"
proof (induction e w len acc rule: sum_words.induct)
  case (1 e w len acc)
  show ?case
  proof (cases "len > 1")
    case False
    then consider "len = 0" | "len = 1" by linarith
    then show ?thesis
    proof cases
      case 1
      then show ?thesis by (simp add: sum_words.simps)
    next
      case 2
      with "1.prems" obtain b w' where "w = b # w'" by (cases w) auto
      with 2 show ?thesis by (simp add: sum_words.simps)
    qed
  next
    case True
    with "1.prems" obtain b0 b1 w' where w: "w = b0 # b1 # w'"
      by (cases w; cases "tl w") auto
    from True have "len = Suc (Suc (len - 2))" by simp
    then obtain k where k: "len = Suc (Suc k)" ..
    have le: "len - 2 \<le> length w'" using "1.prems" w by simp
    from "1.IH" [OF True w refl le]
    obtain w'' where
      IH: "sum_words e w' (len - 2) (acc + ucast (load16 e b0 b1)) =
           Some (w'', (len - 2) mod 2,
             acc + ucast (load16 e b0 b1) + (\<Sum>x\<leftarrow>complete_words e (take (len - 2) w'). ucast x))"
      and IH2: "odd (len - 2) \<longrightarrow> w'' \<noteq> [] \<and> hd w'' = last (take (len - 2) w')"
      by blast
    have "sum_words e w len acc = sum_words e w' (len - 2) (acc + ucast (load16 e b0 b1))"
      using True w by (subst sum_words.simps) simp
    moreover have "(len - 2) mod 2 = len mod 2" using k by simp
    moreover have "take len w = b0 # b1 # take (len - 2) w'" using k w by simp
    moreover have "odd len \<Longrightarrow> take (len - 2) w' \<noteq> []"
    proof -
      assume "odd len"
      then have "0 < len - 2" using k by (cases k) auto
      with le show ?thesis by (cases w') auto
    qed
    moreover have "odd (len - 2) = odd len" using k by simp
    ultimately show ?thesis using IH IH2 by (auto simp: add.assoc)
  qed
qed

lemma csum16_eq_spec:
  assumes "len \<le> length data"
  shows "csum16 e data len = Some (checksum16_spec e (take len data))"
proof -
  from sum_words_spec [OF assms, of e 0] obtain w' where
    sw: "sum_words e data len 0 =
         Some (w', len mod 2, (\<Sum>x\<leftarrow>complete_words e (take len data). ucast x))"
    and od: "odd len \<longrightarrow> w' \<noteq> [] \<and> hd w' = last (take len data)"
    by auto
  have len: "length (take len data) = len" using assms by simp
  show ?thesis
  proof (cases "odd len")
    case True
    with od obtain b w'' where "w' = b # w''" and "b = last (take len data)"
      by (cases w') auto
    with True sw len show ?thesis
      by (simp add: csum16_def checksum16_spec_def Let_def fold_carries_spec ucast_NOT_down odd_iff_mod_2_eq_one)
  next
    case False
    with sw len show ?thesis
      by (simp add: csum16_def checksum16_spec_def Let_def fold_carries_spec ucast_NOT_down)
  qed
qed


section \<open>The verification identity of the checksum\<close>

lemma fold_carries_props:
  "unat (fold_carries s) < 65536 \<and>
   unat (fold_carries s) mod 65535 = unat s mod 65535 \<and>
   (unat (fold_carries s) = 0 \<longleftrightarrow> unat s = 0) \<and>
   unat (fold_carries s) \<le> unat s"
proof (induction s rule: fold_carries.induct)
  case (1 acc)
  let ?n = "unat acc"
  show ?case
  proof (cases "drop_bit 16 acc \<noteq> 0")
    case False
    then have "unat (drop_bit 16 acc) = 0" by simp
    then have "?n div 65536 = 0" by (simp only: unat_high16)
    then have "?n < 65536" by (simp add: div_eq_0_iff)
    moreover from False have "fold_carries acc = acc" by (subst fold_carries.simps) simp
    ultimately show ?thesis by simp
  next
    case True
    let ?acc' = "(acc AND 0xFFFF) + drop_bit 16 acc"
    have step: "fold_carries acc = fold_carries ?acc'"
      using True by (subst fold_carries.simps) simp
    have n': "unat ?acc' = ?n mod 65536 + ?n div 65536" by (rule unat_fold_step)
    have split: "?n = 65535 * (?n div 65536) + (?n mod 65536 + ?n div 65536)" by simp
    have "(65535 * (?n div 65536) + (?n mod 65536 + ?n div 65536)) mod 65535
          = (?n mod 65536 + ?n div 65536) mod 65535"
      by (rule mod_mult_self4)
    then have cong: "unat ?acc' mod 65535 = ?n mod 65535" using split n' by simp
    have zero: "unat ?acc' = 0 \<longleftrightarrow> ?n = 0" using split n' by linarith
    have le: "unat ?acc' \<le> ?n" using split n' by linarith
    from "1.IH" [OF True] cong zero le show ?thesis unfolding step by simp
  qed
qed

lemma unat_NOT_u16: "unat (NOT (x :: u16)) = 65535 - unat x"
proof -
  have "NOT x = - 1 - x" by (simp add: not_eq_complement)
  moreover have "unat (- 1 - x) = unat (- 1 :: u16) - unat x"
    by (rule unat_sub) simp
  moreover have "unat (- 1 :: u16) = 65535"
    by (simp add: unsigned_minus_1_eq_mask mask_eq_exp_minus_1)
  ultimately show ?thesis by simp
qed

lemma unat_ucast_16_32: "unat (ucast (x :: u16) :: u32) = unat x"
proof -
  have "unat x < 2 ^ 16" using unsigned_less [of x, where 'a = nat] by simp
  then have "unat x < 2 ^ 32" by simp
  then show ?thesis by (simp add: unsigned_ucast_eq take_bit_nat_eq_self_iff)
qed

lemma unat_ucast_8_32: "unat (ucast (x :: u8) :: u32) = unat x"
proof -
  have "unat x < 2 ^ 8" using unsigned_less [of x, where 'a = nat] by simp
  then have "unat x < 2 ^ 32" by simp
  then show ?thesis by (simp add: unsigned_ucast_eq take_bit_nat_eq_self_iff)
qed

lemma unat_ucast_32_16: "unat (x :: u32) < 65536 \<Longrightarrow> unat (ucast x :: u16) = unat x"
  by (simp add: unsigned_ucast_eq take_bit_nat_eq_self_iff)


text \<open>
  The identity on the accumulator: when the complemented folded sum is added to the sum,
  the result folds to \<open>0xFFFF\<close>, whose complement is zero. The addition does not wrap,
  whatever the sum is: the sum less its folded value is a multiple of \<open>65535\<close>, and
  \<open>2 ^ 32 - 1\<close> is \<open>65535 * 65537\<close>.
\<close>

lemma verify_accumulator:
  fixes s :: u32
  defines "c \<equiv> (ucast (NOT (fold_carries s)) :: u16)"
  shows "(ucast (NOT (fold_carries (s + ucast c))) :: u16) = 0"
proof -
  let ?r0 = "unat (fold_carries s)"
  from fold_carries_props [of s]
  have r0: "?r0 < 65536" "?r0 mod 65535 = unat s mod 65535" "?r0 = 0 \<longleftrightarrow> unat s = 0" "?r0 \<le> unat s"
    by blast+
  have "c = NOT (ucast (fold_carries s))" by (simp add: c_def ucast_NOT_down)
  then have uc: "unat c = 65535 - ?r0"
    using r0(1) by (simp add: unat_NOT_u16 unat_ucast_32_16)
  let ?s1 = "s + ucast c"
  have dvd: "65535 dvd unat s - ?r0"
    using r0(2,4) by (metis mod_eq_dvd_iff_nat)
  then obtain k where k: "unat s - ?r0 = 65535 * k" by (rule dvdE)
  have lt: "unat s < 4294967296" using unsigned_less [of s, where 'a = nat] by simp
  have nowrap: "unat s - ?r0 + 65535 < 4294967296"
  proof (cases "k \<le> 65536")
    case True
    then have "65535 * k \<le> 65535 * 65536" by (rule mult_le_mono2)
    then show ?thesis using k by simp
  next
    case False
    then have "65537 \<le> k" by simp
    then have "65535 * 65537 \<le> 65535 * k" by (rule mult_le_mono2)
    then have big: "4294967295 \<le> unat s - ?r0" using k by simp
    with lt r0(4) have "?r0 = 0" by linarith
    with r0(3) have "unat s = 0" by blast
    with big show ?thesis by simp
  qed
  have "unat s + unat (ucast c :: u32) = unat s - ?r0 + 65535"
    using uc r0(1,4) by (simp add: unat_ucast_16_32)
  then have sum: "unat s + unat (ucast c :: u32) < 2 ^ 32" using nowrap by simp
  then have "unat ?s1 = unat s + unat (ucast c :: u32)"
    using unat_add_lem [of s "ucast c"] by simp
  then have s1: "unat ?s1 = (unat s - ?r0) + 65535" using uc r0(1,4) by (simp add: unat_ucast_16_32)
  have "unat ?s1 = 65535 * (k + 1)" using s1 k by simp
  then have m: "unat ?s1 mod 65535 = 0" by (simp only: mod_mult_self1_is_0)
  have pos: "unat ?s1 \<noteq> 0" using s1 by simp
  let ?r1 = "unat (fold_carries ?s1)"
  from fold_carries_props [of ?s1]
  have p1: "?r1 < 65536" "?r1 mod 65535 = unat ?s1 mod 65535" "?r1 = 0 \<longleftrightarrow> unat ?s1 = 0"
    by blast+
  have "?r1 mod 65535 = 0" by (simp only: p1(2) m)
  then obtain j where j: "?r1 = 65535 * j" by (auto simp: mod_eq_0_iff_dvd)
  have "?r1 \<noteq> 0" using p1(3) pos by blast
  with p1(1) j have "j = 1" by (cases j; cases "j - 1") auto
  with j have "?r1 = 65535" by simp
  then have "unat (NOT (ucast (fold_carries ?s1) :: u16)) = 0"
    by (simp add: unat_NOT_u16 unat_ucast_32_16)
  then show ?thesis by (simp add: ucast_NOT_down unat_eq_0)
qed

lemma complete_words_append:
  "even (length p) \<Longrightarrow> complete_words e (p @ q) = complete_words e p @ complete_words e q"
  by (induction e p rule: complete_words.induct) simp_all



text \<open>The accumulator before folding, as the specification builds it.\<close>

lemma checksum16_spec_fold:
  "checksum16_spec e t =
     ucast (NOT (fold_carries
       ((\<Sum>x\<leftarrow>complete_words e t. ucast x) + (if odd (length t) then ucast (last t) else 0))))"
  by (simp add: checksum16_spec_def Let_def fold_carries_spec ucast_NOT_down)

lemma write_bytes_split:
  assumes "off + length bs \<le> len" "len \<le> length d"
  shows "take len (write_bytes d off bs) = take off d @ bs @ drop (off + length bs) (take len d)"
proof -
  have "off \<le> length d" "off \<le> len" "length bs \<le> len - off" using assms by simp_all
  then show ?thesis
    by (simp add: write_bytes_def drop_take min_absorb2 diff_diff_left)
qed

lemma take_split_field:
  assumes "off + 2 \<le> len" "len \<le> length d"
  shows "take len d = take off d @ [d ! off, d ! Suc off] @ drop (off + 2) (take len d)"
proof -
  let ?t = "take len d"
  have l: "length ?t = len" using assms by simp
  have a: "?t ! off # drop (Suc off) ?t = drop off ?t"
    using assms l by (intro Cons_nth_drop_Suc) simp
  have b: "?t ! Suc off # drop (Suc (Suc off)) ?t = drop (Suc off) ?t"
    using assms l by (intro Cons_nth_drop_Suc) simp
  have n: "?t ! off = d ! off" "?t ! Suc off = d ! Suc off" using assms by simp_all
  have "?t = take off ?t @ drop off ?t" by (rule append_take_drop_id [symmetric])
  also have "take off ?t = take off d" using assms by (simp add: min_absorb1)
  also have "drop off ?t = [d ! off, d ! Suc off] @ drop (off + 2) ?t"
    using a b n by simp
  finally show ?thesis .
qed

lemma csum16_verification:
  assumes off: "even off" "off + 2 \<le> len" and len: "len \<le> length d"
    and zero: "d ! off = 0" "d ! Suc off = 0"
    and c: "csum16 e d len = Some c"
  shows "csum16 e (write_bytes d off (store16 e c)) len = Some 0"
proof -
  let ?p = "take off d" and ?q = "drop (off + 2) (take len d)"
  let ?t = "take len d"
  obtain c0 c1 where st: "store16 e c = [c0, c1]" by (cases e) (simp_all add: store16_def)
  let ?d' = "write_bytes d off (store16 e c)"
  let ?t' = "take len ?d'"
  have lenp: "length ?p = off" using off len by simp
  have t: "?t = ?p @ [0, 0] @ ?q" using take_split_field [OF off(2) len] zero by simp
  have t': "?t' = ?p @ [c0, c1] @ ?q"
    using write_bytes_split [of off "store16 e c" len d] off len st by simp
  have ld': "length ?d' = length d" using off len st by (simp add: write_bytes_def)
  have lt: "length ?t = len" "length ?t' = len" using len ld' by simp_all
  have l0: "load16 e 0 0 = 0" by (cases e) (simp_all add: load16_def be16_def)
  have lc: "load16 e c0 c1 = c" using st by (rule load16_store16)
  let ?P = "(\<Sum>x\<leftarrow>complete_words e ?p. ucast x) :: u32"
  let ?Q = "(\<Sum>x\<leftarrow>complete_words e ?q. ucast x) :: u32"
  have ev: "even (length ?p)" using lenp off(1) by (simp only:)
  have w: "complete_words e ?t = complete_words e ?p @ [0] @ complete_words e ?q"
    by (subst t) (simp add: complete_words_append [OF ev] l0)
  have w': "complete_words e ?t' = complete_words e ?p @ [c] @ complete_words e ?q"
    by (subst t') (simp add: complete_words_append [OF ev] lc)
  have last_eq: "odd len \<Longrightarrow> last ?t' = last ?t"
  proof -
    assume "odd len"
    with off have "off + 2 < len" by (cases "off + 2 = len") auto
    then have "?q \<noteq> []" using len by simp
    then show ?thesis by (subst t', subst t) simp
  qed
  let ?tb = "(if odd len then ucast (last ?t) else 0) :: u32"
  let ?s0 = "(\<Sum>x\<leftarrow>complete_words e ?t. ucast x) + ?tb"
  have s1: "(\<Sum>x\<leftarrow>complete_words e ?t'. ucast x) + (if odd len then ucast (last ?t') else 0)
        = ?s0 + ucast c"
    using last_eq by (simp add: w w')
  have c_eq: "c = ucast (NOT (fold_carries ?s0))"
    using c csum16_eq_spec [OF len, of e] by (simp only: checksum16_spec_fold lt) simp
  have "csum16 e ?d' len = Some (checksum16_spec e ?t')"
    using len ld' by (simp add: csum16_eq_spec)
  also have "checksum16_spec e ?t' = ucast (NOT (fold_carries (?s0 + ucast c)))"
    by (simp only: checksum16_spec_fold lt s1)
  also have "\<dots> = 0" using verify_accumulator [of ?s0] c_eq by simp
  finally show ?thesis .
qed

section \<open>The checksum in network byte order\<close>





lemma swap16_swap16: "swap16 (swap16 w) = w"
  by (simp add: swap16_def hi8_be16 lo8_be16 be16_hi_lo)



























section \<open>The built packet\<close>

lemma store16_zero: "store16 e 0 = [0, 0]"
  by (cases e) (simp_all add: store16_def hi8_def lo8_def)

lemma store16_length: "length (store16 e v) = 2"
  by (cases e) (simp_all add: store16_def)

lemma list8_exhaust:
  assumes "8 \<le> length (b :: 'a list)"
  obtains x0 x1 x2 x3 x4 x5 x6 x7 r where "b = x0 # x1 # x2 # x3 # x4 # x5 # x6 # x7 # r"
  using assms by (auto simp: Suc_le_length_iff eval_nat_numeral)

lemma payload_write:
  assumes "length hdr = 8"
  shows "write_bytes (hdr @ replicate 56 0 @ r) 8 (take (if 56 < length now then 56 else length now) now)
   = hdr @ take 56 (now @ replicate 56 0) @ r"
  using assms by (auto simp: write_bytes_def)

lemma build_icmp_echo_unfold:
  assumes "64 \<le> length b"
  shows "build_icmp_echo e now (Some b) ident seq =
     (case csum16 e (echo_unsummed now b ident seq) 64 of
        None \<Rightarrow> Inl OutOfBounds
      | Some c \<Rightarrow> Inr (64, Some (write_bytes (echo_unsummed now b ident seq) 2 (store16 e c))))"
proof -
  from assms have "8 \<le> length b" by simp
  then obtain x0 x1 x2 x3 x4 x5 x6 x7 r where b: "b = x0 # x1 # x2 # x3 # x4 # x5 # x6 # x7 # r"
    by (rule list8_exhaust)
  with assms have r: "56 \<le> length r" by simp
  let ?hdr = "[8, 0, 0, 0, hi8 ident, lo8 ident, hi8 seq, lo8 seq]"
  have b5: "write_bytes (write_bytes (write_bytes (write_bytes (write_bytes b 0 [ICMP_ECHO]) 1 [0])
              2 (store16 e 0)) 4 (store16 e (htons e ident))) 6 (store16 e (htons e seq))
            = ?hdr @ r"
    by (simp add: b write_bytes_def store16_zero store16_htons ICMP_ECHO_def)
  have b6: "write_bytes (?hdr @ r) sizeof_icmphdr (replicate (64 - sizeof_icmphdr) 0)
            = ?hdr @ replicate 56 0 @ drop 56 r"
    by (simp add: write_bytes_def sizeof_icmphdr_def)
  have b7: "write_bytes (?hdr @ replicate 56 0 @ drop 56 r) sizeof_icmphdr
              (take (if 64 - sizeof_icmphdr < length now then 64 - sizeof_icmphdr else length now) now)
            = echo_unsummed now b ident seq"
  proof -
    have d: "(64 :: nat) - 8 = 56" by simp
    have h: "length ?hdr = 8" by simp
    have "drop 64 b = drop 56 r" by (simp add: b)
    then show ?thesis
      unfolding sizeof_icmphdr_def echo_unsummed_def d by (simp only: payload_write [OF h])
  qed
  have nl: "(length b < 64) = False" using assms by simp
  show ?thesis
    by (simp only: build_icmp_echo_def Let_def option.simps nl if_False b5 b6 b7 of_nat_numeral)
qed

lemma echo_unsummed_length: "64 \<le> length b \<Longrightarrow> length (echo_unsummed now b ident seq) = length b"
  by (simp add: echo_unsummed_def)

lemma build_icmp_echo_checked:
  assumes "64 \<le> length b"
  obtains c where
    "csum16 e (echo_unsummed now b ident seq) 64 = Some c"
    "build_icmp_echo e now (Some b) ident seq =
       Inr (64, Some (write_bytes (echo_unsummed now b ident seq) 2 (store16 e c)))"
proof -
  have "64 \<le> length (echo_unsummed now b ident seq)"
    using assms by (simp add: echo_unsummed_length)
  then have "csum16 e (echo_unsummed now b ident seq) 64 =
      Some (checksum16_spec e (take 64 (echo_unsummed now b ident seq)))"
    by (rule csum16_eq_spec)
  then show ?thesis using that build_icmp_echo_unfold [OF assms, of e now ident seq] by simp
qed

lemma built_packet_fields:
  "write_bytes (echo_unsummed now b ident seq) 2 [c0, c1] =
     [8, 0, c0, c1, hi8 ident, lo8 ident, hi8 seq, lo8 seq] @
     take 56 (now @ replicate 56 0) @ drop 64 b"
  by (simp add: write_bytes_def echo_unsummed_def)

text \<open>
  C4. For every identifier and sequence number, every timestamp and every buffer of at least
  64 bytes, the builder returns 64 and leaves a buffer whose first 64 bytes are the packet:
  byte 0 is the type 8 (Echo Request), byte 1 the code 0, bytes 4 and 5 the identifier and
  bytes 6 and 7 the sequence number, most significant byte first. The bytes after the first
  64 are not touched.
\<close>

theorem build_icmp_echo_fields:
  assumes "64 \<le> length b"
  shows "\<exists>pkt. build_icmp_echo e now (Some b) ident seq = Inr (64, Some pkt) \<and>
           length pkt = length b \<and> drop 64 pkt = drop 64 b \<and>
           pkt ! 0 = ICMP_ECHO \<and> pkt ! 1 = 0 \<and>
           pkt ! 4 = hi8 ident \<and> pkt ! 5 = lo8 ident \<and>
           pkt ! 6 = hi8 seq \<and> pkt ! 7 = lo8 seq"
proof -
  from build_icmp_echo_checked [OF assms, of e now ident seq] obtain c where
    r: "build_icmp_echo e now (Some b) ident seq =
          Inr (64, Some (write_bytes (echo_unsummed now b ident seq) 2 (store16 e c)))"
    by blast
  obtain c0 c1 where st: "store16 e c = [c0, c1]" by (cases e) (simp_all add: store16_def)
  let ?pkt = "write_bytes (echo_unsummed now b ident seq) 2 [c0, c1]"
  have f: "?pkt = [8, 0, c0, c1, hi8 ident, lo8 ident, hi8 seq, lo8 seq] @
     take 56 (now @ replicate 56 0) @ drop 64 b"
    by (rule built_packet_fields)
  have "length ?pkt = length b" using assms by (simp add: f)
  moreover have "drop 64 ?pkt = drop 64 b" by (simp add: f)
  moreover have "?pkt ! 0 = ICMP_ECHO" "?pkt ! 1 = 0" "?pkt ! 4 = hi8 ident" "?pkt ! 5 = lo8 ident"
      "?pkt ! 6 = hi8 seq" "?pkt ! 7 = lo8 seq"
    by (simp_all add: f ICMP_ECHO_def)
  ultimately show ?thesis using r st by simp
qed

theorem build_icmp_echo_fields_witness:
  "64 \<le> length (replicate 64 (0 :: u8)) \<and>
   (\<exists>pkt. build_icmp_echo LittleEndian [0, 222, 227, 106, 0, 0, 0, 0] (Some (replicate 64 0)) 0 65535
            = Inr (64, Some pkt) \<and>
      length pkt = 64 \<and> pkt ! 0 = 8 \<and> pkt ! 1 = 0 \<and>
      pkt ! 4 = 0 \<and> pkt ! 5 = 0 \<and> pkt ! 6 = 255 \<and> pkt ! 7 = 255)"
proof -
  have h: "64 \<le> length (replicate 64 (0 :: u8))" by simp
  have "hi8 0 = 0" "lo8 0 = 0" "hi8 65535 = 255" "lo8 65535 = 255"
    by (simp_all add: hi8_def lo8_def)
  with build_icmp_echo_fields [OF h, of LittleEndian "[0, 222, 227, 106, 0, 0, 0, 0]" 0 65535]
  show ?thesis by (auto simp: ICMP_ECHO_def)
qed

text \<open>
  C3. The verification identity. The checksum of the packet that the builder leaves, taken
  again over its 64 bytes with the stored checksum included, is \<open>0x0000\<close>: the accumulator
  folds to \<open>0xFFFF\<close> before it is complemented. The same holds for every buffer, of any
  length, whose checksum field lies at an even offset inside the summed bytes, is zero while
  the checksum is computed and then receives the computed value.
\<close>

theorem checksum_verifies_to_zero:
  "(64 \<le> length b \<longrightarrow>
      (\<exists>pkt. build_icmp_echo e now (Some b) ident seq = Inr (64, Some pkt) \<and>
             csum16 e pkt 64 = Some 0)) \<and>
   (even off \<and> off + 2 \<le> len \<and> len \<le> length d \<and>
    d ! off = 0 \<and> d ! Suc off = 0 \<and> csum16 e d len = Some c \<longrightarrow>
      csum16 e (write_bytes d off (store16 e c)) len = Some 0)"
proof (intro conjI impI)
  assume b: "64 \<le> length b"
  let ?u = "echo_unsummed now b ident seq"
  from build_icmp_echo_checked [OF b, of e now ident seq] obtain c where
    c: "csum16 e ?u 64 = Some c" and
    r: "build_icmp_echo e now (Some b) ident seq = Inr (64, Some (write_bytes ?u 2 (store16 e c)))"
    by blast
  have "csum16 e (write_bytes ?u 2 (store16 e c)) 64 = Some 0"
  proof (rule csum16_verification [OF _ _ _ _ _ c])
    show "64 \<le> length ?u" using b by (simp add: echo_unsummed_length)
    show "?u ! 2 = 0" "?u ! Suc 2 = 0" by (simp_all add: echo_unsummed_def)
  qed simp_all
  with r show "\<exists>pkt. build_icmp_echo e now (Some b) ident seq = Inr (64, Some pkt) \<and>
             csum16 e pkt 64 = Some 0" by simp
next
  assume "even off \<and> off + 2 \<le> len \<and> len \<le> length d \<and>
    d ! off = 0 \<and> d ! Suc off = 0 \<and> csum16 e d len = Some c"
  then show "csum16 e (write_bytes d off (store16 e c)) len = Some 0"
    by (intro csum16_verification) simp_all
qed

theorem checksum_verifies_to_zero_witness:
  "64 \<le> length (replicate 64 (0 :: u8)) \<and>
   (\<exists>pkt. build_icmp_echo LittleEndian [0, 222, 227, 106, 0, 0, 0, 0] (Some (replicate 64 0)) 1234 1
            = Inr (64, Some pkt) \<and> csum16 LittleEndian pkt 64 = Some 0) \<and>
   even (2 :: nat) \<and> (2 :: nat) + 2 \<le> 4 \<and> 4 \<le> length [0x45, 0, 0, 0 :: u8] \<and>
   [0x45, 0, 0, 0 :: u8] ! 2 = 0 \<and> [0x45, 0, 0, 0 :: u8] ! Suc 2 = 0 \<and>
   csum16 LittleEndian [0x45, 0, 0, 0] 4 = Some 0xFFBA \<and>
   csum16 LittleEndian (write_bytes [0x45, 0, 0, 0] 2 (store16 LittleEndian 0xFFBA)) 4 = Some 0"
proof -
  have c: "csum16 LittleEndian [0x45, 0, 0, 0] 4 = Some 0xFFBA" by code_simp
  have h: "even (2 :: nat) \<and> (2 :: nat) + 2 \<le> 4 \<and> 4 \<le> length [0x45, 0, 0, 0 :: u8] \<and>
   [0x45, 0, 0, 0 :: u8] ! 2 = 0 \<and> [0x45, 0, 0, 0 :: u8] ! Suc 2 = 0 \<and>
   csum16 LittleEndian [0x45, 0, 0, 0] 4 = Some 0xFFBA" using c by simp
  have b: "64 \<le> length (replicate 64 (0 :: u8))" by simp
  note t = checksum_verifies_to_zero [where b = "replicate 64 0" and e = LittleEndian
      and now = "[0, 222, 227, 106, 0, 0, 0, 0]" and ident = 1234 and seq = 1
      and off = 2 and len = 4 and d = "[0x45, 0, 0, 0]" and c = "0xFFBA"]
  from t [THEN conjunct1, rule_format, OF b] t [THEN conjunct2, rule_format, OF h] h b
  show ?thesis by blast
qed

text \<open>
  The identity does not hold with \<open>0xFFFF\<close> as the value after the complement: on the packet
  built for the identifier 1234 and the sequence number 1 the recomputed checksum is \<open>0\<close>.
\<close>

theorem checksum_verifies_counterexample:
  "build_icmp_echo LittleEndian [0, 222, 227, 106, 0, 0, 0, 0] (Some (replicate 64 0)) 1234 1
     = Inr (64, Some ([8, 0, 14, 228, 4, 210, 0, 1, 0, 222, 227, 106] @ replicate 52 0)) \<and>
   csum16 LittleEndian ([8, 0, 14, 228, 4, 210, 0, 1, 0, 222, 227, 106] @ replicate 52 0) 64 = Some 0 \<and>
   csum16 LittleEndian ([8, 0, 14, 228, 4, 210, 0, 1, 0, 222, 227, 106] @ replicate 52 0) 64 \<noteq> Some 0xFFFF"
proof -
  have "build_icmp_echo LittleEndian [0, 222, 227, 106, 0, 0, 0, 0] (Some (replicate 64 0)) 1234 1
     = Inr (64, Some ([8, 0, 14, 228, 4, 210, 0, 1, 0, 222, 227, 106] @ replicate 52 0))"
    by code_simp
  moreover have "csum16 LittleEndian ([8, 0, 14, 228, 4, 210, 0, 1, 0, 222, 227, 106] @ replicate 52 0) 64 = Some 0"
    by code_simp
  ultimately show ?thesis by simp
qed

section \<open>The filter of the wait loop\<close>

lemma recv_frame:
  "recv buf (RecvFrame f) =
     (int (min (length f) (length buf)),
      take (min (length f) (length buf)) f @ drop (min (length f) (length buf)) buf)"
  by (simp add: recv_def write_bytes_def Let_def)

lemma recv_frame_nth:
  assumes "i < length f" "i < length buf"
  shows "snd (recv buf (RecvFrame f)) ! i = f ! i"
  using assms by (simp add: recv_frame nth_append)

lemma recv_length: "length (snd (recv buf r)) = length buf"
  by (cases r) (auto simp: recv_def write_bytes_def Let_def)

lemma ip_hdr_len_le: "ip_hdr_len f \<le> 60"
proof -
  have "f ! 14 AND 0x0F \<le> 0x0F" by (rule word_and_le1)
  then have "unat (f ! 14 AND 0x0F) \<le> 15" by (simp add: word_le_nat_alt)
  then show ?thesis by (simp add: ip_hdr_len_def)
qed

text \<open>The first four checks, on the frame that recv has just copied.\<close>

lemma frame_accepted_outer:
  assumes buf: "length buf = 2048"
    and acc: "frame_accepted e (snd (recv buf (RecvFrame f))) (fst (recv buf (RecvFrame f))) ident seq"
  shows "42 \<le> length f \<and> eth_type f = ETH_P_IP \<and> 20 \<le> ip_hdr_len f \<and>
         ip_protocol f = IPPROTO_ICMP"
proof -
  let ?b = "snd (recv buf (RecvFrame f))" and ?n = "fst (recv buf (RecvFrame f))"
  have n: "?n = int (min (length f) 2048)" by (simp add: recv_frame buf)
  from acc have "\<not> ?n < int (sizeof_ether_header + sizeof_iphdr + sizeof_icmphdr)"
    by (auto simp: frame_accepted_def split: if_splits)
  then have len: "42 \<le> length f"
    by (simp add: n sizeof_ether_header_def sizeof_iphdr_def sizeof_icmphdr_def)
  then have nth: "?b ! 12 = f ! 12" "?b ! 13 = f ! 13" "?b ! 14 = f ! 14" "?b ! 23 = f ! 23"
    using buf by (simp_all add: recv_frame_nth)
  from acc nth show ?thesis
    by (auto simp: frame_accepted_def Let_def ntohs_load16 eth_type_def ip_hdr_len_def
        ip_protocol_def sizeof_ether_header_def len mult.commute split: if_splits)
qed

lemma frame_accepted_unfold:
  "frame_accepted e b n ident seq \<longleftrightarrow>
     \<not> n < int (sizeof_ether_header + sizeof_iphdr + sizeof_icmphdr) \<and>
     be16 (b ! 12) (b ! 13) = ETH_P_IP \<and>
     \<not> unat (b ! sizeof_ether_header AND 0x0F) * 4 < 20 \<and>
     b ! (sizeof_ether_header + 9) = IPPROTO_ICMP \<and>
     b ! (sizeof_ether_header + unat (b ! sizeof_ether_header AND 0x0F) * 4) = ICMP_ECHOREPLY \<and>
     b ! (sizeof_ether_header + unat (b ! sizeof_ether_header AND 0x0F) * 4 + 1) = 0 \<and>
     be16 (b ! (sizeof_ether_header + unat (b ! sizeof_ether_header AND 0x0F) * 4 + 4))
          (b ! (sizeof_ether_header + unat (b ! sizeof_ether_header AND 0x0F) * 4 + 5)) = ident \<and>
     be16 (b ! (sizeof_ether_header + unat (b ! sizeof_ether_header AND 0x0F) * 4 + 6))
          (b ! (sizeof_ether_header + unat (b ! sizeof_ether_header AND 0x0F) * 4 + 7)) = seq"
  unfolding frame_accepted_def Let_def
  by (simp only: ntohs_load16 load16_eq_htons split: if_split) blast

text \<open>All the checks, for a frame that holds its ICMP header.\<close>

lemma frame_accepted_iff:
  assumes buf: "length buf = 2048" and h: "has_icmp_header f"
  shows "frame_accepted e (snd (recv buf (RecvFrame f))) (fst (recv buf (RecvFrame f))) ident seq
     \<longleftrightarrow> 42 \<le> length f \<and> eth_type f = ETH_P_IP \<and> 20 \<le> ip_hdr_len f \<and>
         ip_protocol f = IPPROTO_ICMP \<and> icmp_type f = ICMP_ECHOREPLY \<and> icmp_code f = 0 \<and>
         icmp_id f = ident \<and> icmp_seq f = seq"
proof (cases "42 \<le> length f")
  case False
  then show ?thesis using frame_accepted_outer [OF buf] by blast
next
  case len: True
  let ?b = "snd (recv buf (RecvFrame f))" and ?n = "fst (recv buf (RecvFrame f))"
  let ?o = "icmp_offset f"
  have n: "?n = int (min (length f) 2048)" by (simp add: recv_frame buf)
  have o: "?o + 8 \<le> length f" "?o \<le> 74"
    using h ip_hdr_len_le [of f] by (simp_all add: has_icmp_header_def icmp_offset_def)
  have nth1: "?b ! 12 = f ! 12" "?b ! 13 = f ! 13" "?b ! sizeof_ether_header = f ! 14"
     "?b ! (sizeof_ether_header + 9) = f ! 23"
    using len buf by (simp_all add: recv_frame_nth sizeof_ether_header_def)
  have nth: "\<And>i. i < ?o + 8 \<Longrightarrow> ?b ! i = f ! i"
    using o buf by (intro recv_frame_nth) simp_all
  have nth2: "?b ! ?o = f ! ?o" "?b ! (?o + 1) = f ! (?o + 1)"
    "?b ! (?o + 4) = f ! (?o + 4)" "?b ! (?o + 5) = f ! (?o + 5)"
    "?b ! (?o + 6) = f ! (?o + 6)" "?b ! (?o + 7) = f ! (?o + 7)"
    by (simp_all add: nth)
  have off: "sizeof_ether_header + ip_hdr_len f = ?o"
    by (simp add: icmp_offset_def sizeof_ether_header_def)
  have hl: "unat (f ! 14 AND 0x0F) * 4 = ip_hdr_len f" by (simp add: ip_hdr_len_def)
  have nn: "(?n < int (sizeof_ether_header + sizeof_iphdr + sizeof_icmphdr)) = False"
    using len by (simp add: n sizeof_ether_header_def sizeof_iphdr_def sizeof_icmphdr_def)
  have "frame_accepted e ?b ?n ident seq \<longleftrightarrow>
      be16 (f ! 12) (f ! 13) = ETH_P_IP \<and> \<not> ip_hdr_len f < 20 \<and>
      f ! 23 = IPPROTO_ICMP \<and> f ! ?o = ICMP_ECHOREPLY \<and> f ! (?o + 1) = 0 \<and>
      be16 (f ! (?o + 4)) (f ! (?o + 5)) = ident \<and> be16 (f ! (?o + 6)) (f ! (?o + 7)) = seq"
    by (simp only: frame_accepted_unfold nn nth1 off nth2 hl not_False_eq_True simp_thms)
  then show ?thesis
    using len
    by (simp add: eth_type_def ip_protocol_def icmp_type_def icmp_code_def icmp_id_def
        icmp_seq_def not_less)
qed

lemma wait_reply_step:
  "0 < p \<Longrightarrow>
   wait_reply e ((p, r) # evs) buf ident seq m =
     (if frame_accepted e (snd (recv buf r)) (fst (recv buf r)) ident seq
      then Some (0, write_bytes m 0 (take ETH_ALEN (drop 6 (snd (recv buf r)))))
      else wait_reply e evs (snd (recv buf r)) ident seq m)"
  by (simp add: wait_reply.simps(2) case_prod_beta)

lemma wait_reply_stop: "p \<le> 0 \<Longrightarrow> wait_reply e ((p, r) # evs) buf ident seq m = Some (- 1, m)"
  by (simp add: wait_reply.simps(2))

lemma recv_shost:
  assumes "12 \<le> length f" "12 \<le> length buf"
  shows "take 6 (drop 6 (snd (recv buf (RecvFrame f)))) = eth_shost f"
  using assms by (simp add: recv_frame eth_shost_def min_def drop_take)

lemma write_mac: "length m = ETH_ALEN \<Longrightarrow> length s = ETH_ALEN \<Longrightarrow> write_bytes m 0 s = s"
  by (simp add: write_bytes_def)

lemma eth_shost_length: "12 \<le> length f \<Longrightarrow> length (eth_shost f) = ETH_ALEN"
  by (simp add: eth_shost_def ETH_ALEN_def)

lemma wait_reply_match:
  assumes buf: "length buf = 2048" and p: "0 < p" and m: "length mac_out = ETH_ALEN"
    and h: "has_icmp_header f"
    and c: "eth_type f = ETH_P_IP" "20 \<le> ip_hdr_len f" "ip_protocol f = IPPROTO_ICMP"
      "icmp_type f = ICMP_ECHOREPLY" "icmp_code f = 0" "icmp_id f = ident" "icmp_seq f = seq"
  shows "wait_reply e ((p, RecvFrame f) # evs) buf ident seq mac_out = Some (0, eth_shost f)"
proof -
  have len: "42 \<le> length f" using h c(2) by (simp add: has_icmp_header_def icmp_offset_def)
  then have acc: "frame_accepted e (snd (recv buf (RecvFrame f))) (fst (recv buf (RecvFrame f))) ident seq"
    using frame_accepted_iff [OF buf h, of e ident seq] c by simp
  have "take ETH_ALEN (drop 6 (snd (recv buf (RecvFrame f)))) = eth_shost f"
    using recv_shost [of f buf] len buf by (simp add: ETH_ALEN_def)
  moreover have "write_bytes mac_out 0 (eth_shost f) = eth_shost f"
    using m len by (intro write_mac) (simp_all add: eth_shost_length)
  ultimately show ?thesis using acc by (simp add: wait_reply_step [OF p])
qed

lemma wait_reply_reject:
  assumes buf: "length buf = 2048" and p: "0 < p"
    and fail: "length f < 42 \<or> eth_type f \<noteq> ETH_P_IP \<or> ip_hdr_len f < 20 \<or>
       ip_protocol f \<noteq> IPPROTO_ICMP \<or>
       (has_icmp_header f \<and> (icmp_type f \<noteq> ICMP_ECHOREPLY \<or> icmp_code f \<noteq> 0 \<or>
          icmp_id f \<noteq> ident \<or> icmp_seq f \<noteq> seq))"
  shows "wait_reply e ((p, RecvFrame f) # evs) buf ident seq mac_out =
         wait_reply e evs (snd (recv buf (RecvFrame f))) ident seq mac_out"
proof -
  have "\<not> frame_accepted e (snd (recv buf (RecvFrame f))) (fst (recv buf (RecvFrame f))) ident seq"
  proof
    assume a: "frame_accepted e (snd (recv buf (RecvFrame f))) (fst (recv buf (RecvFrame f))) ident seq"
    from frame_accepted_outer [OF buf a] fail
    have h: "has_icmp_header f" and
      "icmp_type f \<noteq> ICMP_ECHOREPLY \<or> icmp_code f \<noteq> 0 \<or> icmp_id f \<noteq> ident \<or> icmp_seq f \<noteq> seq"
      by auto
    with frame_accepted_iff [OF buf h, of e ident seq] a show False by blast
  qed
  then show ?thesis by (simp add: wait_reply_step [OF p])
qed

lemma wait_reply_failure_keeps_mac:
  "wait_reply e evs buf ident seq mac_out = Some (r, m) \<Longrightarrow> r \<noteq> 0 \<Longrightarrow> r = - 1 \<and> m = mac_out"
proof (induction evs arbitrary: buf)
  case Nil
  then show ?case by simp
next
  case (Cons ev evs)
  obtain p rr where ev: "ev = (p, rr)" by (cases ev)
  show ?case
  proof (cases "0 < p")
    case True
    with Cons.prems show ?thesis
      unfolding ev by (auto simp: wait_reply_step split: if_splits dest: Cons.IH)
  next
    case False
    with Cons.prems show ?thesis unfolding ev by (simp add: wait_reply_stop)
  qed
qed

lemma wait_reply_prefix:
  "p \<le> 0 \<Longrightarrow> wait_reply e (pre @ (p, r) # rest) buf ident seq m =
     wait_reply e (pre @ [(0, RecvError)]) buf ident seq m"
proof (induction pre arbitrary: buf)
  case Nil
  then show ?case by (simp add: wait_reply_stop)
next
  case (Cons ev pre)
  obtain q rr where ev: "ev = (q, rr)" by (cases ev)
  show ?case
  proof (cases "0 < q")
    case True
    then show ?thesis unfolding ev using Cons.IH [OF Cons.prems]
      by (simp add: wait_reply_step)
  next
    case False
    then show ?thesis unfolding ev by (simp add: wait_reply_stop)
  qed
qed

section \<open>Properties of the wait loop\<close>

text \<open>
  C1. The code checks the length of a frame against 42 bytes only, the size of the three
  headers when the IPv4 header has no options. A frame of 42 bytes whose header-length field
  is 15 puts the ICMP header at offset 74, outside the frame; the loop then reads the ICMP
  fields from what an earlier, longer frame left in the buffer, and reports the short frame
  as the reply. Here the earlier frame is an 82-byte frame that is not IPv4.
\<close>

theorem short_frame_reported:
  "length short_frame = 42 \<and> ip_hdr_len short_frame = 60 \<and> icmp_offset short_frame = 74 \<and>
   \<not> has_icmp_header short_frame \<and>
   wait_reply LittleEndian [(1, RecvFrame stale_frame), (1, RecvFrame short_frame)]
     (replicate 2048 0) 1234 1 (replicate 6 0) = Some (0, [0x11, 0x22, 0x33, 0x44, 0x55, 0x66])"
  by code_simp

text \<open>
  C5. A frame that fails a check of the filter is to be left unreported. The loop does so
  for every frame that holds its ICMP header (\<open>wait_reply_reject\<close> above), but not for
  every captured frame: a frame of 42 bytes whose header-length field is 15 ends before its
  ICMP header, so it has no type, identifier or sequence number to match, and the loop
  reports it when the bytes that an earlier frame left at the offsets 74 to 81 of the buffer
  match. Here the earlier frame is an Echo Reply to another sender, itself rejected for its
  identifier.
\<close>

theorem truncated_frame_reported:
  "length other_reply_frame = 98 \<and> has_icmp_header other_reply_frame \<and>
   icmp_id other_reply_frame = 999 \<and> \<not> passes_filter other_reply_frame 1234 1 \<and>
   length truncated_frame = 42 \<and> \<not> has_icmp_header truncated_frame \<and>
   \<not> passes_filter truncated_frame 1234 1 \<and>
   wait_reply LittleEndian [(1, RecvFrame other_reply_frame), (1, RecvFrame truncated_frame)]
     (replicate 2048 0) 1234 1 (replicate 6 0) = Some (0, [0x66, 0x55, 0x44, 0x33, 0x22, 0x11])"
  by code_simp

text \<open>
  C6. A frame that passes all the checks (it holds the three headers, has the Ethernet type
  IPv4, a header length of at least 20, the protocol ICMP, the type Echo Reply with code 0,
  and the expected identifier and sequence number, read most significant byte first) makes
  the loop return 0 with the six bytes of the frame's Ethernet source address in the caller's
  array.
\<close>

theorem matching_frame_reports_mac:
  assumes "length buf = 2048" and "0 < p" and "length mac_out = ETH_ALEN"
    and "has_icmp_header f"
    and "eth_type f = ETH_P_IP" and "20 \<le> ip_hdr_len f" and "ip_protocol f = IPPROTO_ICMP"
    and "icmp_type f = ICMP_ECHOREPLY" and "icmp_code f = 0"
    and "icmp_id f = ident" and "icmp_seq f = seq"
  shows "wait_reply e ((p, RecvFrame f) # evs) buf ident seq mac_out = Some (0, eth_shost f)"
  using assms by (rule wait_reply_match)

theorem matching_frame_reports_mac_witness:
  "length (replicate 2048 (0 :: u8)) = 2048 \<and> (0 :: int) < 1 \<and>
   length (replicate 6 (0 :: u8)) = ETH_ALEN \<and> has_icmp_header reply_frame \<and>
   eth_type reply_frame = ETH_P_IP \<and> 20 \<le> ip_hdr_len reply_frame \<and>
   ip_protocol reply_frame = IPPROTO_ICMP \<and> icmp_type reply_frame = ICMP_ECHOREPLY \<and>
   icmp_code reply_frame = 0 \<and> icmp_id reply_frame = 1234 \<and> icmp_seq reply_frame = 1 \<and>
   wait_reply LittleEndian [(1, RecvFrame reply_frame)] (replicate 2048 0) 1234 1 (replicate 6 0)
     = Some (0, [0xAA, 0xBB, 0xCC, 0xDD, 0xEE, 0xFF]) \<and>
   print_mac [0xAA, 0xBB, 0xCC, 0xDD, 0xEE, 0xFF] = ''aa:bb:cc:dd:ee:ff'' @ [CHR 0x0A]"
proof -
  have h1: "length (replicate 2048 (0 :: u8)) = 2048" by (rule length_replicate)
  have h2: "(0 :: int) < 1" by simp
  have h3: "length (replicate 6 (0 :: u8)) = ETH_ALEN" by (simp add: ETH_ALEN_def)
  have h4: "has_icmp_header reply_frame" by code_simp
  have h5: "eth_type reply_frame = ETH_P_IP" by code_simp
  have h6: "20 \<le> ip_hdr_len reply_frame" by code_simp
  have h7: "ip_protocol reply_frame = IPPROTO_ICMP" by code_simp
  have h8: "icmp_type reply_frame = ICMP_ECHOREPLY" by code_simp
  have h9: "icmp_code reply_frame = 0" by code_simp
  have h10: "icmp_id reply_frame = 1234" by code_simp
  have h11: "icmp_seq reply_frame = 1" by code_simp
  have s: "eth_shost reply_frame = [0xAA, 0xBB, 0xCC, 0xDD, 0xEE, 0xFF]" by code_simp
  have pm: "print_mac [0xAA, 0xBB, 0xCC, 0xDD, 0xEE, 0xFF] = ''aa:bb:cc:dd:ee:ff'' @ [CHR 0x0A]"
    by code_simp
  have r: "wait_reply LittleEndian [(1, RecvFrame reply_frame)] (replicate 2048 0) 1234 1 (replicate 6 0)
     = Some (0, [0xAA, 0xBB, 0xCC, 0xDD, 0xEE, 0xFF])"
    by (rule matching_frame_reports_mac [OF h1 h2 h3 h4 h5 h6 h7 h8 h9 h10 h11, unfolded s])
  show ?thesis by (intro conjI; fact)
qed

text \<open>
  C7. When the loop returns a failure, the value is \<open>-1\<close> and the caller's array is what
  it was at the call.
\<close>

theorem mac_out_untouched_on_failure:
  "wait_reply e evs buf ident seq mac_out = Some (r, m) \<Longrightarrow> r \<noteq> 0 \<Longrightarrow> r = - 1 \<and> m = mac_out"
  by (rule wait_reply_failure_keeps_mac)

theorem mac_out_untouched_on_failure_witness:
  "wait_reply LittleEndian [(1, RecvFrame seq2_frame), (0, RecvError)]
     (replicate 2048 0) 1234 1 [1, 2, 3, 4, 5, 6] = Some (- 1, [1, 2, 3, 4, 5, 6]) \<and>
   (- 1 :: int) \<noteq> 0 \<and> (- 1 :: int) = - 1 \<and> [1, 2, 3, 4, 5, 6 :: u8] = [1, 2, 3, 4, 5, 6]"
proof -
  have a: "wait_reply LittleEndian [(1, RecvFrame seq2_frame), (0, RecvError)]
     (replicate 2048 0) 1234 1 [1, 2, 3, 4, 5, 6] = Some (- 1, [1, 2, 3, 4, 5, 6])"
    by code_simp
  have b: "(- 1 :: int) \<noteq> 0" by simp
  note c = mac_out_untouched_on_failure [OF a b]
  show ?thesis by (rule conjI [OF a conjI [OF b c]])
qed

text \<open>
  C9. An error of \<^verbatim>\<open>poll\<close> (a negative value) at any point of a run has the result
  that a timeout (the value 0) has at that point, for \<^verbatim>\<open>wait_reply\<close> and for what
  \<^verbatim>\<open>main\<close> prints and returns.
\<close>

theorem poll_error_same_as_timeout:
  "p \<le> 0 \<Longrightarrow>
   wait_reply e (pre @ (p, r) # rest) buf ident seq m =
     wait_reply e (pre @ [(0, RecvError)]) buf ident seq m \<and>
   main_wait e (pre @ (p, r) # rest) buf pid16 m =
     main_wait e (pre @ [(0, RecvError)]) buf pid16 m"
proof -
  assume "p \<le> 0"
  then have "wait_reply e (pre @ (p, r) # rest) buf ident seq m =
     wait_reply e (pre @ [(0, RecvError)]) buf ident seq m" for ident seq
    by (rule wait_reply_prefix)
  then show ?thesis unfolding main_wait_def by (simp only: simp_thms)
qed

theorem poll_error_same_as_timeout_witness:
  "(- 1 :: int) \<le> 0 \<and>
   wait_reply LittleEndian ([(1, RecvFrame seq2_frame)] @ (- 1, RecvError) # [])
     (replicate 2048 0) 1234 1 (replicate 6 0) = Some (- 1, replicate 6 0) \<and>
   main_wait LittleEndian ([(1, RecvFrame seq2_frame)] @ (- 1, RecvError) # [])
     (replicate 2048 0) 1234 (replicate 6 0)
     = Some (Stderr (''Timeout waiting for Echo Reply'' @ [CHR 0x0A]), 1)"
proof -
  have h: "(- 1 :: int) \<le> 0" by simp
  have t: "wait_reply LittleEndian ([(1, RecvFrame seq2_frame)] @ [(0, RecvError)])
     (replicate 2048 0) 1234 1 (replicate 6 0) = Some (- 1, replicate 6 0)"
    by code_simp
  have t': "main_wait LittleEndian ([(1, RecvFrame seq2_frame)] @ [(0, RecvError)])
     (replicate 2048 0) 1234 (replicate 6 0)
     = Some (Stderr (''Timeout waiting for Echo Reply'' @ [CHR 0x0A]), 1)"
    by code_simp
  note th = poll_error_same_as_timeout [OF h, where e = LittleEndian
      and pre = "[(1, RecvFrame seq2_frame)]" and r = RecvError and rest = "[]"
      and buf = "replicate 2048 0" and m = "replicate 6 0"]
  note th' = th [where ident = 1234 and seq = 1 and ?pid16.0 = 1234]
  have w: "wait_reply LittleEndian ([(1, RecvFrame seq2_frame)] @ (- 1, RecvError) # [])
     (replicate 2048 0) 1234 1 (replicate 6 0) = Some (- 1, replicate 6 0)"
    by (rule trans [OF th' [THEN conjunct1] t])
  have w': "main_wait LittleEndian ([(1, RecvFrame seq2_frame)] @ (- 1, RecvError) # [])
     (replicate 2048 0) 1234 (replicate 6 0)
     = Some (Stderr (''Timeout waiting for Echo Reply'' @ [CHR 0x0A]), 1)"
    by (rule trans [OF th' [THEN conjunct2] t'])
  show ?thesis by (intro conjI; fact)
qed

lemma checksum_overwrite_fields:
  fixes c0 c1 :: u8
  assumes h: "has_icmp_header f" and hl: "20 \<le> ip_hdr_len f"
  defines "f' \<equiv> f[icmp_offset f + 2 := c0, icmp_offset f + 3 := c1]"
  shows "has_icmp_header f'" "eth_type f' = eth_type f" "ip_hdr_len f' = ip_hdr_len f"
    "ip_protocol f' = ip_protocol f" "icmp_type f' = icmp_type f" "icmp_code f' = icmp_code f"
    "icmp_id f' = icmp_id f" "icmp_seq f' = icmp_seq f" "eth_shost f' = eth_shost f"
    "icmp_checksum f' = be16 c0 c1"
proof -
  let ?o = "icmp_offset f"
  have o: "34 \<le> ?o" using hl by (simp add: icmp_offset_def)
  have len: "?o + 8 \<le> length f" using h by (simp add: has_icmp_header_def)
  have b14: "f' ! 14 = f ! 14" using o by (simp add: f'_def)
  then show l: "ip_hdr_len f' = ip_hdr_len f" by (simp add: ip_hdr_len_def)
  then have o': "icmp_offset f' = ?o" by (simp add: icmp_offset_def)
  show "has_icmp_header f'" using len by (simp add: has_icmp_header_def o') (simp add: f'_def)
  show "eth_type f' = eth_type f" using o by (simp add: eth_type_def f'_def)
  show "ip_protocol f' = ip_protocol f" using o by (simp add: ip_protocol_def f'_def)
  show "icmp_type f' = icmp_type f" by (simp add: icmp_type_def o') (simp add: f'_def)
  show "icmp_code f' = icmp_code f" by (simp add: icmp_code_def o') (simp add: f'_def)
  show "icmp_id f' = icmp_id f" by (simp add: icmp_id_def o') (simp add: f'_def)
  show "icmp_seq f' = icmp_seq f" by (simp add: icmp_seq_def o') (simp add: f'_def)
  show "eth_shost f' = eth_shost f"
    using o by (simp add: eth_shost_def f'_def drop_update_swap)
  show "icmp_checksum f' = be16 c0 c1"
    using len by (simp add: icmp_checksum_def o') (simp add: f'_def)
qed

text \<open>
  C10. The checksum of the reply is not looked at: when a frame passes the checks, the frame
  with any two bytes \<open>c0\<close>, \<open>c1\<close> in its ICMP checksum field is reported too, with
  the same source address.
\<close>

theorem reply_checksum_not_verified:
  assumes "length buf = 2048" and "0 < p" and "length mac_out = ETH_ALEN"
    and "has_icmp_header f"
    and "eth_type f = ETH_P_IP" and "20 \<le> ip_hdr_len f" and "ip_protocol f = IPPROTO_ICMP"
    and "icmp_type f = ICMP_ECHOREPLY" and "icmp_code f = 0"
    and "icmp_id f = ident" and "icmp_seq f = seq"
  shows "icmp_checksum (f[icmp_offset f + 2 := c0, icmp_offset f + 3 := c1]) = be16 c0 c1 \<and>
         wait_reply e ((p, RecvFrame (f[icmp_offset f + 2 := c0, icmp_offset f + 3 := c1])) # evs)
           buf ident seq mac_out = Some (0, eth_shost f)"
proof -
  let ?f' = "f[icmp_offset f + 2 := c0, icmp_offset f + 3 := c1]"
  note fs = checksum_overwrite_fields [OF assms(4) assms(6), of c0 c1]
  have "wait_reply e ((p, RecvFrame ?f') # evs) buf ident seq mac_out = Some (0, eth_shost ?f')"
    using assms fs by (intro wait_reply_match) simp_all
  then show ?thesis using fs by simp
qed

theorem reply_checksum_not_verified_witness:
  "length (replicate 2048 (0 :: u8)) = 2048 \<and> (0 :: int) < 1 \<and>
   length (replicate 6 (0 :: u8)) = ETH_ALEN \<and> has_icmp_header reply_frame \<and>
   eth_type reply_frame = ETH_P_IP \<and> 20 \<le> ip_hdr_len reply_frame \<and>
   ip_protocol reply_frame = IPPROTO_ICMP \<and> icmp_type reply_frame = ICMP_ECHOREPLY \<and>
   icmp_code reply_frame = 0 \<and> icmp_id reply_frame = 1234 \<and> icmp_seq reply_frame = 1 \<and>
   csum16 LittleEndian (drop 34 bad_checksum_frame) 8 = Some 0x7F1C \<and>
   wait_reply LittleEndian [(1, RecvFrame bad_checksum_frame)] (replicate 2048 0) 1234 1
     (replicate 6 0) = Some (0, [0xAA, 0xBB, 0xCC, 0xDD, 0xEE, 0xFF])"
proof -
  have h1: "length (replicate 2048 (0 :: u8)) = 2048" by (rule length_replicate)
  have h2: "(0 :: int) < 1" by simp
  have h3: "length (replicate 6 (0 :: u8)) = ETH_ALEN" by (simp add: ETH_ALEN_def)
  have h4: "has_icmp_header reply_frame" by code_simp
  have h5: "eth_type reply_frame = ETH_P_IP" by code_simp
  have h6: "20 \<le> ip_hdr_len reply_frame" by code_simp
  have h7: "ip_protocol reply_frame = IPPROTO_ICMP" by code_simp
  have h8: "icmp_type reply_frame = ICMP_ECHOREPLY" by code_simp
  have h9: "icmp_code reply_frame = 0" by code_simp
  have h10: "icmp_id reply_frame = 1234" by code_simp
  have h11: "icmp_seq reply_frame = 1" by code_simp
  have s: "eth_shost reply_frame = [0xAA, 0xBB, 0xCC, 0xDD, 0xEE, 0xFF]" by code_simp
  have u: "reply_frame[icmp_offset reply_frame + 2 := 0xDE, icmp_offset reply_frame + 3 := 0xAD]
           = bad_checksum_frame" by code_simp
  have c: "csum16 LittleEndian (drop 34 bad_checksum_frame) 8 = Some 0x7F1C" by code_simp
  note t = reply_checksum_not_verified [OF h1 h2 h3 h4 h5 h6 h7 h8 h9 h10 h11,
      of "0xDE" "0xAD" LittleEndian "[]", THEN conjunct2, unfolded s u]
  have r: "wait_reply LittleEndian [(1, RecvFrame bad_checksum_frame)] (replicate 2048 0) 1234 1
     (replicate 6 0) = Some (0, [0xAA, 0xBB, 0xCC, 0xDD, 0xEE, 0xFF])"
    by (rule t)
  show ?thesis by (intro conjI; fact)
qed

end
